theory Spec2Isabelle
  imports Main
begin

section \<open>Data model of async-patterns.py\<close>

text \<open>
  Decoded JSON, as \<open>response.json()\<close> returns it, and the payload stored in the
  \<open>data\<close> field of an \<open>APIResponse\<close>: decoded JSON when the content type is
  \<open>application/json\<close>, the raw text otherwise.
\<close>

datatype json = JNull | JBool bool | JNum int | JStr string
  | JArr "json list" | JObj "(string \<times> json) list"

datatype payload = JsonData json | TextData string

text \<open>The dataclass \<open>APIResponse\<close> (lines 16 to 21).\<close>

record APIResponse =
  status :: int
  data :: "payload option"
  error :: "string option"

text \<open>
  What a Python \<open>await\<close> can raise. The handler of \<open>_request\<close> is
  \<open>except Exception\<close>, so the class of the raised object matters:
  \<open>Exception d\<close> is an instance of \<open>Exception\<close> whose \<open>str\<close> is \<open>d\<close>;
  \<open>BaseOnly d\<close> is a \<open>BaseException\<close> outside \<open>Exception\<close>, such as
  \<open>asyncio.CancelledError\<close>, which \<open>task.cancel()\<close> (line 155) delivers at an await.
\<close>

datatype exn = Exception string | BaseOnly string

text \<open>
  The response object the session yields: its status, its content type, and the outcome
  of awaiting \<open>response.json()\<close> and \<open>response.text()\<close>, each of which returns or raises.
\<close>

record client_response =
  r_status :: int
  r_content_type :: string
  r_json :: "exn + json"
  r_text :: "exn + string"

text \<open>One call of \<open>self.session.request(method, url)\<close>: it raises or yields a response.\<close>

datatype attempt = Raises exn | Responds client_response

text \<open>
  The environment of one logical request: what the transport does at the call of each
  attempt index, for a method and a url, and whether the \<open>asyncio.sleep\<close> after a failed
  attempt is interrupted (an exception raised inside the handler leaves the function).
\<close>

record world =
  transport :: "string \<Rightarrow> string \<Rightarrow> nat \<Rightarrow> attempt"
  sleep_fault :: "nat \<Rightarrow> exn option"

text \<open>The observable effects of \<open>_request\<close>, in order: transport calls and sleeps.\<close>

datatype effect = Call nat | Sleep nat

section \<open>The fetch client\<close>

text \<open>Line 74: \<open>wait_time = 2 ** attempt\<close>.\<close>

definition wait_time :: "nat \<Rightarrow> nat" where
  "wait_time attempt = 2 ^ attempt"

text \<open>\<open>str(last_exception)\<close> of line 80; \<open>last_exception\<close> starts as \<open>None\<close>.\<close>

fun str_exn :: "exn option \<Rightarrow> string" where
  "str_exn None = ''None''"
| "str_exn (Some (Exception d)) = d"
| "str_exn (Some (BaseOnly d)) = d"

text \<open>The body of the \<open>try\<close> (lines 63 to 69): it returns a response or raises.\<close>

definition attempt_body :: "attempt \<Rightarrow> exn + APIResponse" where
  "attempt_body a =
     (case a of
        Raises e \<Rightarrow> Inl e
      | Responds r \<Rightarrow>
          if r_status r < 400 then
            (if r_content_type r = ''application/json'' then
               (case r_json r of
                  Inl e \<Rightarrow> Inl e
                | Inr j \<Rightarrow> Inr \<lparr>status = r_status r, data = Some (JsonData j), error = None\<rparr>)
             else
               (case r_text r of
                  Inl e \<Rightarrow> Inl e
                | Inr t \<Rightarrow> Inr \<lparr>status = r_status r, data = Some (TextData t), error = None\<rparr>))
          else
            (case r_text r of
               Inl e \<Rightarrow> Inl e
             | Inr t \<Rightarrow> Inr \<lparr>status = r_status r, data = None, error = Some t\<rparr>))"

text \<open>
  The loop \<open>for attempt in range(retries + 1)\<close> (lines 61 to 80) over the remaining
  attempt indices, with \<open>last_exception\<close> as accumulator. The result is the effects
  performed and either the exception that leaves \<open>_request\<close> or the returned response.
  Logging is left out.
\<close>

fun attempts ::
  "(nat \<Rightarrow> attempt) \<Rightarrow> (nat \<Rightarrow> exn option) \<Rightarrow> int \<Rightarrow> nat list \<Rightarrow> exn option
     \<Rightarrow> effect list \<times> (exn + APIResponse)" where
  "attempts tr sl retries [] last_exception =
     ([], Inr \<lparr>status = 0, data = None, error = Some (str_exn last_exception)\<rparr>)"
| "attempts tr sl retries (attempt # rest) last_exception =
     (case attempt_body (tr attempt) of
        Inr resp \<Rightarrow> ([Call attempt], Inr resp)
      | Inl (BaseOnly d) \<Rightarrow> ([Call attempt], Inl (BaseOnly d))
      | Inl (Exception d) \<Rightarrow>
          if int attempt < retries then
            (case sl attempt of
               Some e \<Rightarrow> ([Call attempt, Sleep (wait_time attempt)], Inl e)
             | None \<Rightarrow>
                 (case attempts tr sl retries rest (Some (Exception d)) of
                    (fx, r) \<Rightarrow> (Call attempt # Sleep (wait_time attempt) # fx, r)))
          else
            (case attempts tr sl retries rest (Some (Exception d)) of
               (fx, r) \<Rightarrow> (Call attempt # fx, r)))"

text \<open>\<open>AsyncHTTPClient._request\<close> (line 57) and \<open>get\<close> (line 49, default \<open>retries = 3\<close>).\<close>

definition request :: "world \<Rightarrow> string \<Rightarrow> string \<Rightarrow> int \<Rightarrow> effect list \<times> (exn + APIResponse)" where
  "request w method url retries =
     attempts (transport w method url) (sleep_fault w) retries [0..<nat (retries + 1)] None"

definition get :: "world \<Rightarrow> string \<Rightarrow> effect list \<times> (exn + APIResponse)" where
  "get w url = request w ''GET'' url 3"

text \<open>The number of transport calls among the effects.\<close>

fun is_call :: "effect \<Rightarrow> bool" where
  "is_call (Call _) = True"
| "is_call (Sleep _) = False"

definition calls :: "effect list \<Rightarrow> nat" where
  "calls fx = length (filter is_call fx)"

section \<open>The fan-out dispatcher\<close>

text \<open>
  \<open>fetch_with_semaphore\<close> (lines 95 to 97) runs \<open>client.get(url)\<close> while it holds a
  permit of the semaphore. A unit is suspended before it holds a permit, calling while it
  holds one, and finished once \<open>client.get\<close> has returned or raised and the
  \<open>async with\<close> has given the permit back.
\<close>

datatype phase = Suspended | Calling | Finished "exn + APIResponse"

text \<open>The batch: the counter of \<open>asyncio.Semaphore\<close> and the units, by index.\<close>

record batch =
  sem_value :: nat
  units :: "phase list"

text \<open>
  What the event loop can do next: let unit \<open>i\<close> pass \<open>async with semaphore\<close>,
  or let unit \<open>i\<close> finish its call and leave the \<open>async with\<close>.
\<close>

datatype event = Enter nat | Leave nat

definition fetch_with_semaphore :: "world \<Rightarrow> string \<Rightarrow> exn + APIResponse" where
  "fetch_with_semaphore w url = snd (get w url)"

text \<open>
  One step. \<open>acquire\<close> lets a unit through only while the counter is positive and
  decrements it; otherwise the unit stays suspended. \<open>release\<close> increments it, on
  every exit of the \<open>async with\<close>. Unit \<open>i\<close> runs in its own environment \<open>ws i\<close>.
\<close>

fun step :: "(nat \<Rightarrow> world) \<Rightarrow> string list \<Rightarrow> batch \<Rightarrow> event \<Rightarrow> batch" where
  "step ws urls b (Enter i) =
     (if i < length (units b) \<and> units b ! i = Suspended \<and> 0 < sem_value b
      then b\<lparr>sem_value := sem_value b - 1, units := (units b)[i := Calling]\<rparr>
      else b)"
| "step ws urls b (Leave i) =
     (if i < length (units b) \<and> units b ! i = Calling
      then b\<lparr>sem_value := sem_value b + 1,
             units := (units b)[i := Finished (fetch_with_semaphore (ws i) (urls ! i))]\<rparr>
      else b)"

text \<open>
  The batch after a schedule, from a semaphore of \<open>K\<close> permits and one suspended unit
  for each url (line 100).
\<close>

definition dispatch :: "nat \<Rightarrow> (nat \<Rightarrow> world) \<Rightarrow> string list \<Rightarrow> event list \<Rightarrow> batch" where
  "dispatch K ws urls sched =
     foldl (step ws urls) \<lparr>sem_value = K, units = replicate (length urls) Suspended\<rparr> sched"

text \<open>
  \<open>asyncio.gather(*tasks, return_exceptions=True)\<close> (line 101): it returns once every
  child is done, with each child's return value or raised exception, in the order of the
  children. \<open>None\<close> is a gather that is still waiting.
\<close>

fun gather :: "phase list \<Rightarrow> (exn + APIResponse) list option" where
  "gather [] = Some []"
| "gather (Finished r # us) = (case gather us of None \<Rightarrow> None | Some rs \<Rightarrow> Some (r # rs))"
| "gather (Suspended # us) = None"
| "gather (Calling # us) = None"

text \<open>\<open>fetch_multiple_urls\<close> (lines 83 to 101), with \<open>asyncio.Semaphore(10)\<close>.\<close>

definition fetch_multiple_urls ::
  "(nat \<Rightarrow> world) \<Rightarrow> string list \<Rightarrow> event list \<Rightarrow> (exn + APIResponse) list option" where
  "fetch_multiple_urls ws urls sched = gather (units (dispatch 10 ws urls sched))"

text \<open>The number of units that hold a permit.\<close>

definition in_flight :: "batch \<Rightarrow> nat" where
  "in_flight b = length (filter (\<lambda>p. p = Calling) (units b))"


section \<open>The task manager\<close>

text \<open>The terminal states of an \<open>asyncio.Task\<close>.\<close>

datatype outcome = Completed | Failed string | Cancelled

text \<open>
  A task object: its terminal state (\<open>None\<close> while it is pending), whether
  \<open>cancel()\<close> has been requested, the coroutine it runs, and the task ids captured by
  its done callbacks \<open>lambda t: self._task_completed(task_id, t)\<close>.
\<close>

record 'w task =
  state :: "outcome option"
  must_cancel :: bool
  coro :: 'w
  callbacks :: "string list"

text \<open>
  The manager: \<open>self.tasks\<close> maps a task id to a reference to a task object; the
  objects live in a store addressed by creation index, since a replaced task stays alive
  and its callback still refers to it.
\<close>

record 'w manager =
  tasks :: "string \<rightharpoonup> nat"
  heap :: "'w task list"

definition task_done :: "'w task \<Rightarrow> bool" where
  "task_done t = (state t \<noteq> None)"

text \<open>Every reference in \<open>self.tasks\<close> points to an object of the store.\<close>

definition wf :: "'w manager \<Rightarrow> bool" where
  "wf m = (\<forall>task_id h. tasks m task_id = Some h \<longrightarrow> h < length (heap m))"

definition init_manager :: "'w manager" where
  "init_manager = \<lparr>tasks = Map.empty, heap = []\<rparr>"

text \<open>\<open>cancel_task\<close> (lines 150 to 158): the returned flag and the manager afterwards.\<close>

definition cancel_task :: "string \<Rightarrow> 'w manager \<Rightarrow> bool \<times> 'w manager" where
  "cancel_task task_id m =
     (case tasks m task_id of
        None \<Rightarrow> (False, m)
      | Some h \<Rightarrow>
          if \<not> task_done (heap m ! h)
          then (True, m\<lparr>heap := (heap m)[h := (heap m ! h)\<lparr>must_cancel := True\<rparr>]\<rparr>)
          else (False, m))"

text \<open>
  Lines 145 to 147: \<open>asyncio.create_task(coro)\<close> makes a pending task,
  \<open>add_done_callback\<close> registers the observer, and the task is stored under its id.
\<close>

definition track :: "string \<Rightarrow> 'w \<Rightarrow> 'w manager \<Rightarrow> 'w manager" where
  "track task_id c m =
     (let task = \<lparr>state = None, must_cancel = False, coro = c, callbacks = []\<rparr>;
          task' = task\<lparr>callbacks := callbacks task @ [task_id]\<rparr>
      in m\<lparr>heap := heap m @ [task'], tasks := (tasks m)(task_id \<mapsto> length (heap m))\<rparr>)"

text \<open>\<open>start_task\<close> (lines 140 to 148).\<close>

definition start_task :: "string \<Rightarrow> 'w \<Rightarrow> 'w manager \<Rightarrow> 'w manager" where
  "start_task task_id c m =
     track task_id c (if task_id \<in> dom (tasks m) then snd (cancel_task task_id m) else m)"

text \<open>\<open>_task_completed\<close> (lines 160 to 170); the classification is only logged.\<close>

definition task_completed :: "string \<Rightarrow> nat \<Rightarrow> 'w manager \<Rightarrow> 'w manager" where
  "task_completed task_id h m =
     (if task_id \<in> dom (tasks m) then m\<lparr>tasks := (tasks m)(task_id := None)\<rparr> else m)"

text \<open>
  The event loop: the pending task \<open>h\<close> reaches a terminal state, and, later, the
  done callbacks of the finished task \<open>h\<close> run.
\<close>

definition finish :: "nat \<Rightarrow> outcome \<Rightarrow> 'w manager \<Rightarrow> 'w manager" where
  "finish h out m =
     (if h < length (heap m) \<and> \<not> task_done (heap m ! h)
      then m\<lparr>heap := (heap m)[h := (heap m ! h)\<lparr>state := Some out\<rparr>]\<rparr>
      else m)"

definition run_callbacks :: "nat \<Rightarrow> 'w manager \<Rightarrow> 'w manager" where
  "run_callbacks h m =
     (if h < length (heap m) \<and> task_done (heap m ! h)
      then foldl (\<lambda>m' task_id. task_completed task_id h m') m (callbacks (heap m ! h))
      else m)"

section \<open>Example environments\<close>

text \<open>
  A transport that times out at every call, one that answers every call with status 500,
  and one whose first await is hit by the cancellation of the calling task.
\<close>

definition refusing_world :: world where
  "refusing_world = \<lparr>transport = (\<lambda>method url k. Raises (Exception ''timed out'')),
                      sleep_fault = (\<lambda>k. None)\<rparr>"

definition rejecting_world :: world where
  "rejecting_world =
     \<lparr>transport = (\<lambda>method url k. Responds \<lparr>r_status = 500, r_content_type = ''text/plain'',
          r_json = Inl (Exception ''not json''), r_text = Inr ''Internal Server Error''\<rparr>),
      sleep_fault = (\<lambda>k. None)\<rparr>"

definition cancelled_world :: world where
  "cancelled_world = \<lparr>transport = (\<lambda>method url k. Raises (BaseOnly ''CancelledError'')),
                       sleep_fault = (\<lambda>k. None)\<rparr>"

section \<open>Invariant and schedules of the dispatcher\<close>

text \<open>
  What holds of a batch after any schedule: there is one unit for each url, the permits
  left and the units calling add up to the capacity, and a finished unit holds the
  outcome of its own \<open>client.get\<close>.
\<close>

definition batch_inv :: "nat \<Rightarrow> (nat \<Rightarrow> world) \<Rightarrow> string list \<Rightarrow> batch \<Rightarrow> bool" where
  "batch_inv K ws urls b =
     (length (units b) = length urls \<and> sem_value b + in_flight b = K \<and>
      (\<forall>i<length urls. \<forall>r. units b ! i = Finished r \<longrightarrow>
          r = fetch_with_semaphore (ws i) (urls ! i)))"



definition batch_worlds :: "nat \<Rightarrow> world" where
  "batch_worlds i = (if i = 1 then refusing_world else rejecting_world)"



definition five_urls :: "string list" where
  "five_urls = [''http://example.org/a'', ''http://example.org/b'', ''http://example.org/c'',
                ''http://example.org/d'', ''http://example.org/e'']"

text \<open>A manager that tracks one pending task under the id \<open>t1\<close>.\<close>

definition running_manager :: "string manager" where
  "running_manager =
     \<lparr>tasks = [''t1'' \<mapsto> 0],
      heap = [\<lparr>state = None, must_cancel = False, coro = ''work'', callbacks = [''t1'']\<rparr>]\<rparr>"

section \<open>Properties of the fetch client\<close>

text \<open>
  Every sleep among the effects of the loop comes right after the call of an attempt that
  raised an \<open>Exception\<close> and that is not the last one, and lasts \<open>wait_time\<close> of it.
\<close>

lemma attempts_sleep:
  "fst (attempts tr sl R as lx) = pre @ Sleep t # post \<Longrightarrow>
   \<exists>pre' a d. pre = pre' @ [Call a] \<and> int a < R \<and> t = wait_time a
      \<and> attempt_body (tr a) = Inl (Exception d)"
proof (induction as arbitrary: pre lx)
  case Nil
  then show ?case by simp
next
  case (Cons a as)
  show ?case
  proof (cases "attempt_body (tr a)")
    case (Inr resp)
    with Cons.prems show ?thesis by (auto simp: Cons_eq_append_conv)
  next
    case (Inl e)
    show ?thesis
    proof (cases e)
      case (BaseOnly d)
      with Inl Cons.prems show ?thesis by (auto simp: Cons_eq_append_conv)
    next
      case (Exception d)
      show ?thesis
      proof (cases "int a < R")
        case True
        show ?thesis
        proof (cases "sl a")
          case (Some e')
          with True Exception Inl Cons.prems show ?thesis
            by (auto simp: Cons_eq_append_conv)
        next
          case None
          obtain fx r where rec: "attempts tr sl R as (Some (Exception d)) = (fx, r)"
            by (cases "attempts tr sl R as (Some (Exception d))")
          with None True Exception Inl Cons.prems
          have eq: "Call a # Sleep (wait_time a) # fx = pre @ Sleep t # post" by simp
          then consider "pre = [Call a]" "t = wait_time a"
            | pre2 where "pre = Call a # Sleep (wait_time a) # pre2" "fx = pre2 @ Sleep t # post"
            by (auto simp: Cons_eq_append_conv)
          then show ?thesis
          proof cases
            case 1
            with True Exception Inl show ?thesis by auto
          next
            case 2
            from Cons.IH[of "Some (Exception d)" pre2] rec 2(2)
            obtain pre' b d' where "pre2 = pre' @ [Call b]" "int b < R" "t = wait_time b"
              "attempt_body (tr b) = Inl (Exception d')" by auto
            with 2(1) show ?thesis by auto
          qed
        qed
      next
        case False
        obtain fx r where rec: "attempts tr sl R as (Some (Exception d)) = (fx, r)"
          by (cases "attempts tr sl R as (Some (Exception d))")
        with False Exception Inl Cons.prems
        have eq: "Call a # fx = pre @ Sleep t # post" by simp
        then obtain pre2 where p: "pre = Call a # pre2" "fx = pre2 @ Sleep t # post"
          by (auto simp: Cons_eq_append_conv)
        from Cons.IH[of "Some (Exception d)" pre2] rec p(2)
        obtain pre' b d' where "pre2 = pre' @ [Call b]" "int b < R" "t = wait_time b"
          "attempt_body (tr b) = Inl (Exception d')" by auto
        with p(1) show ?thesis by auto
      qed
    qed
  qed
qed

text \<open>
  When every remaining attempt raises an \<open>Exception\<close> and no sleep is interrupted, the
  loop calls the transport once for each remaining index and reports the last failure.
\<close>

lemma attempts_all_fail:
  assumes "\<forall>k. a \<le> k \<and> k \<le> nat R \<longrightarrow> tr k = Raises (Exception (d k))"
    and "\<forall>k. k < nat R \<longrightarrow> sl k = None"
    and "0 \<le> R" and "a \<le> nat R"
  shows "\<exists>fx. attempts tr sl R [a..<Suc (nat R)] lx =
           (fx, Inr \<lparr>status = 0, data = None, error = Some (d (nat R))\<rparr>)
         \<and> calls fx = Suc (nat R) - a"
  using assms
proof (induction "nat R - a" arbitrary: a lx)
  case 0
  then have a: "a = nat R" by simp
  have b: "attempt_body (tr (nat R)) = Inl (Exception (d (nat R)))"
    using 0(2) a by (simp add: attempt_body_def)
  have "[a..<Suc (nat R)] = [nat R]" using a by simp
  then show ?case using b 0(4) a by (simp add: calls_def)
next
  case (Suc n)
  then have lt: "a < nat R" by simp
  have b: "attempt_body (tr a) = Inl (Exception (d a))"
    using Suc(3) lt by (simp add: attempt_body_def)
  have l: "[a..<Suc (nat R)] = a # [Suc a..<Suc (nat R)]"
    using lt by (simp add: upt_conv_Cons)
  have n: "n = nat R - Suc a" using Suc(2) by simp
  have h1: "\<forall>k. Suc a \<le> k \<and> k \<le> nat R \<longrightarrow> tr k = Raises (Exception (d k))"
    using Suc(3) by simp
  from Suc(1)[OF n h1 Suc(4) Suc(5), of "Some (Exception (d a))"] lt
  obtain fx where rec: "attempts tr sl R [Suc a..<Suc (nat R)] (Some (Exception (d a))) =
      (fx, Inr \<lparr>status = 0, data = None, error = Some (d (nat R))\<rparr>)"
    and c: "calls fx = Suc (nat R) - Suc a" by auto
  have s: "sl a = None" using Suc(4) lt by simp
  have i: "int a < R" using lt by linarith
  show ?case using l b rec c s i lt by (simp add: calls_def)
qed


text \<open>
  Without a \<open>BaseException\<close> outside \<open>Exception\<close> and without an interrupted sleep the
  loop returns a response: that of an attempt, or the status 0 response of line 80.
\<close>

lemma attempts_returns:
  assumes "\<forall>k\<in>set as. \<forall>d. attempt_body (tr k) \<noteq> Inl (BaseOnly d)"
    and "\<forall>k\<in>set as. sl k = None"
  shows "\<exists>resp. snd (attempts tr sl R as lx) = Inr resp \<and>
           ((\<exists>k\<in>set as. attempt_body (tr k) = Inr resp) \<or>
            (status resp = 0 \<and> data resp = None \<and> error resp \<noteq> None))"
  using assms
proof (induction as arbitrary: lx)
  case Nil
  then show ?case by simp
next
  case (Cons a as)
  show ?case
  proof (cases "attempt_body (tr a)")
    case (Inr resp)
    then show ?thesis by simp
  next
    case (Inl e)
    then obtain d where e: "e = Exception d"
      using Cons.prems(1) by (cases e) auto
    have s: "sl a = None" using Cons.prems(2) by simp
    from Cons.IH[of "Some (Exception d)"] Cons.prems
    obtain resp where r: "snd (attempts tr sl R as (Some (Exception d))) = Inr resp"
      and k: "(\<exists>k\<in>set as. attempt_body (tr k) = Inr resp) \<or>
            (status resp = 0 \<and> data resp = None \<and> error resp \<noteq> None)" by auto
    have "snd (attempts tr sl R (a # as) lx) = Inr resp"
      using Inl e s r by (cases "attempts tr sl R as (Some (Exception d))") simp
    with k show ?thesis by auto
  qed
qed



text \<open>
  Claim C4. When the transport call raises a transport error (an \<open>Exception\<close>) at every
  attempt, \<open>_request\<close> with retry budget \<open>R\<close> calls the transport exactly \<open>R + 1\<close>
  times (4 times for the default \<open>R = 3\<close>) and then returns the response with status 0
  whose \<open>error\<close> is the description of the last transport error. The sleeps between the
  attempts run to their end.
\<close>

theorem request_exhaustion:
  assumes "0 \<le> retries"
    and "\<forall>k\<le>nat retries. transport w method url k = Raises (Exception (d k))"
    and "\<forall>k<nat retries. sleep_fault w k = None"
  shows "calls (fst (request w method url retries)) = nat retries + 1
         \<and> snd (request w method url retries) =
             Inr \<lparr>status = 0, data = None, error = Some (d (nat retries))\<rparr>"
proof -
  have n: "nat (retries + 1) = Suc (nat retries)" using assms(1) by simp
  from attempts_all_fail[of 0 retries "transport w method url" d "sleep_fault w" None]
    assms
  obtain fx where "attempts (transport w method url) (sleep_fault w) retries
      [0..<Suc (nat retries)] None =
        (fx, Inr \<lparr>status = 0, data = None, error = Some (d (nat retries))\<rparr>)"
    and "calls fx = Suc (nat retries) - 0" by auto
  then show ?thesis unfolding request_def n by simp
qed

theorem request_exhaustion_witness:
  "calls (fst (get refusing_world ''http://example.org/a'')) = 4
   \<and> snd (get refusing_world ''http://example.org/a'') =
       Inr \<lparr>status = 0, data = None, error = Some ''timed out''\<rparr>"
  using request_exhaustion [of 3 refusing_world "''GET''" "''http://example.org/a''"
      "\<lambda>k. ''timed out''"]
  by (simp add: refusing_world_def get_def)

text \<open>
  Claim C5. The wait before a retry is \<open>1 * 2 ^ attempt\<close>, a function of the attempt
  index alone: 1, 2 and 4 for the attempts 0, 1 and 2. Among the effects of \<open>_request\<close>
  every sleep comes right after the transport call of an attempt that failed with an
  \<open>Exception\<close> and whose index is below \<open>retries\<close>, so that attempts remain: there is
  no sleep before the first attempt and none after the final one.
\<close>

theorem backoff_policy:
  "wait_time attempt = 1 * 2 ^ attempt
   \<and> wait_time 0 = 1 \<and> wait_time 1 = 2 \<and> wait_time 2 = 4
   \<and> (fst (request w method url retries) = pre @ Sleep t # post \<longrightarrow>
        (\<exists>pre' a d. pre = pre' @ [Call a] \<and> int a < retries \<and> t = wait_time a
           \<and> attempt_body (transport w method url a) = Inl (Exception d)))"
  using attempts_sleep [of "transport w method url" "sleep_fault w" retries
      "[0..<nat (retries + 1)]" None pre t post]
  by (simp add: wait_time_def request_def)

lemma refusing_trace:
  "fst (request refusing_world ''GET'' ''http://example.org/a'' 3) =
     [Call 0, Sleep 1, Call 1, Sleep 2, Call 2, Sleep 4, Call 3]"
  by (simp add: request_def refusing_world_def attempt_body_def wait_time_def upt_conv_Cons)

theorem backoff_policy_witness:
  "fst (request refusing_world ''GET'' ''http://example.org/a'' 3) =
     [Call 0, Sleep 1, Call 1] @ Sleep 2 # [Call 2, Sleep 4, Call 3]
   \<and> (\<exists>pre' a d. [Call 0, Sleep 1, Call 1] = pre' @ [Call a] \<and> int a < 3 \<and> 2 = wait_time a
         \<and> attempt_body (transport refusing_world ''GET'' ''http://example.org/a'' a)
             = Inl (Exception d))"
  using backoff_policy [of 0 refusing_world "''GET''" "''http://example.org/a''" 3
      "[Call 0, Sleep 1, Call 1]" 2 "[Call 2, Sleep 4, Call 3]"] refusing_trace
  by simp

text \<open>
  Claim C6 as stated fails: a cancellation delivered at the transport await is a
  \<open>BaseException\<close> that \<open>except Exception\<close> lets through, so it leaves \<open>_request\<close>.
\<close>

theorem request_raises_counterexample:
  "snd (request cancelled_world ''GET'' ''http://example.org/a'' 3) =
     Inl (BaseOnly ''CancelledError'')"
  by (simp add: request_def cancelled_world_def attempt_body_def upt_conv_Cons)

text \<open>
  Claim C6, amended. When no attempt ends in a \<open>BaseException\<close> outside \<open>Exception\<close>
  and no sleep is interrupted, \<open>_request\<close> raises nothing: it returns a response, which is
  the success or rejection of one of its attempts or the status 0 response of exhaustion.
\<close>

theorem request_returns_response:
  assumes "\<forall>k<nat (retries + 1). \<forall>d. attempt_body (transport w method url k) \<noteq> Inl (BaseOnly d)"
    and "\<forall>k<nat (retries + 1). sleep_fault w k = None"
  shows "\<exists>resp. snd (request w method url retries) = Inr resp \<and>
           ((\<exists>k<nat (retries + 1). attempt_body (transport w method url k) = Inr resp) \<or>
            (status resp = 0 \<and> data resp = None \<and> error resp \<noteq> None))"
  using attempts_returns [of "[0..<nat (retries + 1)]" "transport w method url" "sleep_fault w"
      retries None] assms
  unfolding request_def by auto

theorem request_returns_response_witness:
  "\<exists>resp. snd (request refusing_world ''GET'' ''http://example.org/a'' 3) = Inr resp \<and>
     ((\<exists>k<nat (3 + 1). attempt_body (transport refusing_world ''GET'' ''http://example.org/a'' k)
          = Inr resp) \<or>
      (status resp = 0 \<and> data resp = None \<and> error resp \<noteq> None))"
  using request_returns_response [of 3 refusing_world "''GET''" "''http://example.org/a''"]
  by (simp add: refusing_world_def attempt_body_def)


section \<open>Properties of the dispatcher\<close>

text \<open>Counting the calling units across an update of one unit.\<close>

lemma filter_update_count:
  "i < length xs \<Longrightarrow>
   length (filter P (xs[i := v])) + (if P (xs ! i) then 1 else 0) =
   length (filter P xs) + (if P v then 1 else 0)"
proof (induction xs arbitrary: i)
  case Nil
  then show ?case by simp
next
  case (Cons x xs)
  show ?case
  proof (cases i)
    case 0
    then show ?thesis by simp
  next
    case (Suc j)
    with Cons.prems have "j < length xs" by simp
    from Cons.IH[OF this] Suc show ?thesis by simp
  qed
qed

lemma in_flight_enter:
  assumes "i < length (units b)" "units b ! i = Suspended"
  shows "in_flight (b\<lparr>sem_value := s, units := (units b)[i := Calling]\<rparr>) = Suc (in_flight b)"
  using filter_update_count[OF assms(1), of "\<lambda>p. p = Calling" Calling] assms(2)
  by (simp add: in_flight_def)

lemma in_flight_leave:
  assumes "i < length (units b)" "units b ! i = Calling"
  shows "Suc (in_flight (b\<lparr>sem_value := s, units := (units b)[i := Finished r]\<rparr>)) = in_flight b"
  using filter_update_count[OF assms(1), of "\<lambda>p. p = Calling" "Finished r"] assms(2)
  by (simp add: in_flight_def)

lemma step_length: "length (units (step ws urls b e)) = length (units b)"
  by (cases e) simp_all

lemma step_permits:
  "sem_value (step ws urls b e) + in_flight (step ws urls b e) = sem_value b + in_flight b"
proof (cases e)
  case (Enter i)
  show ?thesis
  proof (cases "i < length (units b) \<and> units b ! i = Suspended \<and> 0 < sem_value b")
    case True
    let ?b' = "b\<lparr>sem_value := sem_value b - 1, units := (units b)[i := Calling]\<rparr>"
    have f: "in_flight ?b' = Suc (in_flight b)" using True by (simp only: in_flight_enter)
    have s: "step ws urls b e = ?b'" using True Enter by simp
    have v: "sem_value ?b' = sem_value b - 1" by simp
    have p: "0 < sem_value b" using True by simp
    have "sem_value ?b' + in_flight ?b' = sem_value b + in_flight b"
      unfolding f v using p by arith
    then show ?thesis unfolding s .
  next
    case False
    then have "step ws urls b e = b" using Enter by auto
    then show ?thesis by simp
  qed
next
  case (Leave i)
  show ?thesis
  proof (cases "i < length (units b) \<and> units b ! i = Calling")
    case True
    let ?b' = "b\<lparr>sem_value := sem_value b + 1,
        units := (units b)[i := Finished (fetch_with_semaphore (ws i) (urls ! i))]\<rparr>"
    have f: "Suc (in_flight ?b') = in_flight b"
      using True by (simp only: in_flight_leave)
    have s: "step ws urls b e = ?b'" using True Leave by simp
    have v: "sem_value ?b' = sem_value b + 1" by simp
    have "sem_value ?b' + in_flight ?b' = sem_value b + in_flight b"
      unfolding v using f by arith
    then show ?thesis unfolding s .
  next
    case False
    then have "step ws urls b e = b" using Leave by auto
    then show ?thesis by simp
  qed
qed

lemma step_finished:
  assumes "units (step ws urls b e) ! j = Finished r" and "j < length (units b)"
  shows "units b ! j = Finished r \<or> r = fetch_with_semaphore (ws j) (urls ! j)"
proof (cases e)
  case (Enter i)
  then show ?thesis using assms
    by (cases "i = j") (simp_all split: if_splits)
next
  case (Leave i)
  then show ?thesis using assms
    by (cases "i = j") (simp_all split: if_splits)
qed

lemma step_inv:
  assumes "batch_inv K ws urls b"
  shows "batch_inv K ws urls (step ws urls b e)"
proof -
  have len: "length (units b) = length urls" using assms by (simp add: batch_inv_def)
  have fin: "\<forall>i<length urls. \<forall>r. units b ! i = Finished r \<longrightarrow>
      r = fetch_with_semaphore (ws i) (urls ! i)" using assms by (simp add: batch_inv_def)
  have "\<forall>j<length urls. \<forall>r. units (step ws urls b e) ! j = Finished r \<longrightarrow>
      r = fetch_with_semaphore (ws j) (urls ! j)"
  proof (intro allI impI)
    fix j r assume j: "j < length urls" and f: "units (step ws urls b e) ! j = Finished r"
    from step_finished[OF f] j len
    have "units b ! j = Finished r \<or> r = fetch_with_semaphore (ws j) (urls ! j)" by simp
    with fin j show "r = fetch_with_semaphore (ws j) (urls ! j)" by blast
  qed
  moreover have "sem_value (step ws urls b e) + in_flight (step ws urls b e) = K"
    using assms step_permits[of ws urls b e] by (simp add: batch_inv_def)
  moreover have "length (units (step ws urls b e)) = length urls"
    using len by (simp only: step_length)
  ultimately show ?thesis unfolding batch_inv_def by blast
qed

lemma run_inv:
  "batch_inv K ws urls b \<Longrightarrow> batch_inv K ws urls (foldl (step ws urls) b sched)"
  by (induction sched arbitrary: b) (simp_all add: step_inv)

lemma init_inv:
  "batch_inv K ws urls \<lparr>sem_value = K, units = replicate (length urls) Suspended\<rparr>"
  by (simp add: batch_inv_def in_flight_def)

lemma dispatch_inv: "batch_inv K ws urls (dispatch K ws urls sched)"
  unfolding dispatch_def by (rule run_inv[OF init_inv])
























text \<open>
  Claim C9. After any schedule of a batch dispatched with \<open>K\<close> permits, at most \<open>K\<close>
  units are calling, the permits left being \<open>K\<close> minus their number; while \<open>K\<close> units
  are calling, a further unit that tries to enter stays suspended. \<open>fetch_multiple_urls\<close>
  dispatches with \<open>K = 10\<close>.
\<close>

theorem in_flight_bounded:
  "in_flight (dispatch K ws urls sched) \<le> K
   \<and> sem_value (dispatch K ws urls sched) + in_flight (dispatch K ws urls sched) = K
   \<and> (in_flight (dispatch K ws urls sched) = K \<longrightarrow>
        step ws urls (dispatch K ws urls sched) (Enter i) = dispatch K ws urls sched)
   \<and> fetch_multiple_urls ws urls sched = gather (units (dispatch 10 ws urls sched))"
proof -
  have inv: "batch_inv K ws urls (dispatch K ws urls sched)" by (rule dispatch_inv)
  then have s: "sem_value (dispatch K ws urls sched) + in_flight (dispatch K ws urls sched) = K"
    by (simp add: batch_inv_def)
  then have "in_flight (dispatch K ws urls sched) \<le> K" by arith
  moreover have "in_flight (dispatch K ws urls sched) = K \<longrightarrow>
        step ws urls (dispatch K ws urls sched) (Enter i) = dispatch K ws urls sched"
  proof
    assume "in_flight (dispatch K ws urls sched) = K"
    with s have "sem_value (dispatch K ws urls sched) = 0" by arith
    then show "step ws urls (dispatch K ws urls sched) (Enter i) = dispatch K ws urls sched"
      by simp
  qed
  ultimately show ?thesis using s by (simp add: fetch_multiple_urls_def)
qed

lemma two_in_flight:
  "dispatch 2 batch_worlds five_urls [Enter 0, Enter 1] =
     \<lparr>sem_value = 0, units = [Calling, Calling, Suspended, Suspended, Suspended]\<rparr>"
  by (simp add: dispatch_def five_urls_def numeral_2_eq_2 numeral_3_eq_3)

theorem in_flight_bounded_witness:
  "in_flight (dispatch 2 batch_worlds five_urls [Enter 0, Enter 1]) = 2
   \<and> step batch_worlds five_urls (dispatch 2 batch_worlds five_urls [Enter 0, Enter 1]) (Enter 2)
       = dispatch 2 batch_worlds five_urls [Enter 0, Enter 1]
   \<and> units (dispatch 2 batch_worlds five_urls [Enter 0, Enter 1, Enter 2]) ! 2 = Suspended"
proof -
  have f: "in_flight (dispatch 2 batch_worlds five_urls [Enter 0, Enter 1]) = 2"
    unfolding two_in_flight by (simp add: in_flight_def)
  from in_flight_bounded [of 2 batch_worlds five_urls "[Enter 0, Enter 1]" 2] f
  have s: "step batch_worlds five_urls (dispatch 2 batch_worlds five_urls [Enter 0, Enter 1])
      (Enter 2) = dispatch 2 batch_worlds five_urls [Enter 0, Enter 1]" by simp
  have "dispatch 2 batch_worlds five_urls [Enter 0, Enter 1, Enter 2] =
      step batch_worlds five_urls (dispatch 2 batch_worlds five_urls [Enter 0, Enter 1]) (Enter 2)"
    by (simp add: dispatch_def)
  then have "units (dispatch 2 batch_worlds five_urls [Enter 0, Enter 1, Enter 2]) ! 2 = Suspended"
    unfolding s two_in_flight by simp
  with f s show ?thesis by simp
qed

section \<open>Properties of the task manager\<close>

text \<open>What \<open>cancel_task\<close> and \<open>start_task\<close> do to the mapping and to the store.\<close>

lemma cancel_task_heap_length:
  "length (heap (snd (cancel_task task_id m))) = length (heap m)"
  by (simp add: cancel_task_def split: option.splits)

lemma cancel_task_tasks: "tasks (snd (cancel_task task_id m)) = tasks m"
  by (simp add: cancel_task_def split: option.splits)

lemma cancel_task_state:
  "state (heap (snd (cancel_task task_id m)) ! h) = state (heap m ! h)"
proof (cases "tasks m task_id")
  case None
  then show ?thesis by (simp add: cancel_task_def)
next
  case (Some h')
  show ?thesis
  proof (cases "h' < length (heap m) \<and> h = h'")
    case True
    then show ?thesis using Some by (simp add: cancel_task_def)
  next
    case False
    then show ?thesis using Some
      by (cases "h' < length (heap m)")
        (auto simp: cancel_task_def nth_list_update list_update_beyond not_less)
  qed
qed

lemma start_task_tasks:
  "tasks (start_task task_id c m) = (tasks m)(task_id \<mapsto> length (heap m))"
  by (simp add: start_task_def track_def cancel_task_tasks cancel_task_heap_length)

lemma start_task_heap:
  "heap (start_task task_id c m) =
     heap (if task_id \<in> dom (tasks m) then snd (cancel_task task_id m) else m) @
       [\<lparr>state = None, must_cancel = False, coro = c, callbacks = [task_id]\<rparr>]"
  by (simp add: start_task_def track_def)

lemma start_task_heap_length: "length (heap (start_task task_id c m)) = Suc (length (heap m))"
  by (simp add: start_task_heap cancel_task_heap_length)

lemma start_task_new:
  "heap (start_task task_id c m) ! length (heap m) =
     \<lparr>state = None, must_cancel = False, coro = c, callbacks = [task_id]\<rparr>"
  by (simp add: start_task_heap cancel_task_heap_length nth_append)

lemma start_task_old:
  "h < length (heap m) \<Longrightarrow>
   heap (start_task task_id c m) ! h =
     heap (if task_id \<in> dom (tasks m) then snd (cancel_task task_id m) else m) ! h"
  by (simp add: start_task_heap cancel_task_heap_length nth_append)

text \<open>
  Every manager reached from the empty one by the operations and the steps of the event
  loop keeps its references inside the store.
\<close>

lemma wf_init: "wf init_manager"
  by (simp add: wf_def init_manager_def)

lemma wf_cancel_task: "wf m \<Longrightarrow> wf (snd (cancel_task task_id m))"
  by (simp add: wf_def cancel_task_tasks cancel_task_heap_length)

lemma wf_start_task: "wf m \<Longrightarrow> wf (start_task task_id c m)"
  by (auto simp: wf_def start_task_tasks start_task_heap_length less_Suc_eq)

lemma wf_finish: "wf m \<Longrightarrow> wf (finish h out m)"
  by (simp add: wf_def finish_def)

lemma wf_task_completed: "wf m \<Longrightarrow> wf (task_completed task_id h m)"
  by (simp add: wf_def task_completed_def)

lemma run_callbacks_heap: "heap (run_callbacks h m) = heap m"
proof -
  have "heap (foldl (\<lambda>m' task_id. task_completed task_id h m') m ids) = heap m" for ids
    by (induction ids arbitrary: m) (simp_all add: task_completed_def)
  then show ?thesis by (simp add: run_callbacks_def)
qed

lemma wf_run_callbacks: "wf m \<Longrightarrow> wf (run_callbacks h m)"
proof -
  have "wf m \<Longrightarrow> wf (foldl (\<lambda>m' task_id. task_completed task_id h m') m ids)" for ids
    by (induction ids arbitrary: m) (simp_all add: wf_task_completed)
  then show "wf m \<Longrightarrow> wf (run_callbacks h m)" by (simp add: run_callbacks_def)
qed

text \<open>
  Claim C7. \<open>cancel_task\<close> returns true exactly when the id is in \<open>self.tasks\<close> and the
  task it names is not done; then cancellation is requested on that task and on no other,
  and the mapping is unchanged. It returns false when the id is unknown and when the named
  task is already done, and then the manager is left as it was: nothing is requested.
\<close>

theorem cancel_task_result:
  "(fst (cancel_task task_id m) \<longleftrightarrow>
      (\<exists>h. tasks m task_id = Some h \<and> \<not> task_done (heap m ! h)))
   \<and> (tasks m task_id = None \<longrightarrow> cancel_task task_id m = (False, m))
   \<and> (tasks m task_id = Some h \<and> task_done (heap m ! h) \<longrightarrow> cancel_task task_id m = (False, m))
   \<and> (\<not> fst (cancel_task task_id m) \<longrightarrow> snd (cancel_task task_id m) = m)
   \<and> (wf m \<and> tasks m task_id = Some h \<and> \<not> task_done (heap m ! h) \<longrightarrow>
        fst (cancel_task task_id m) \<and>
        must_cancel (heap (snd (cancel_task task_id m)) ! h) \<and>
        state (heap (snd (cancel_task task_id m)) ! h) = None \<and>
        tasks (snd (cancel_task task_id m)) = tasks m \<and>
        (\<forall>h'. h' \<noteq> h \<longrightarrow> heap (snd (cancel_task task_id m)) ! h' = heap m ! h'))"
proof (cases "tasks m task_id")
  case None
  then show ?thesis by (simp add: cancel_task_def)
next
  case (Some h0)
  show ?thesis
  proof (cases "task_done (heap m ! h0)")
    case True
    then show ?thesis using Some by (auto simp: cancel_task_def)
  next
    case False
    then show ?thesis using Some
      by (auto simp: cancel_task_def wf_def task_done_def)
  qed
qed

theorem cancel_task_result_witness:
  "fst (cancel_task ''t1'' running_manager)
   \<and> must_cancel (heap (snd (cancel_task ''t1'' running_manager)) ! 0)
   \<and> cancel_task ''unknown'' running_manager = (False, running_manager)
   \<and> cancel_task ''t1'' (finish 0 Completed running_manager)
       = (False, finish 0 Completed running_manager)"
proof -
  have w: "wf running_manager" by (simp add: wf_def running_manager_def)
  have t: "tasks running_manager ''t1'' = Some 0" by (simp add: running_manager_def)
  have p: "\<not> task_done (heap running_manager ! 0)"
    by (simp add: running_manager_def task_done_def)
  have u: "tasks running_manager ''unknown'' = None" by (simp add: running_manager_def)
  have t': "tasks (finish 0 Completed running_manager) ''t1'' = Some 0"
    by (simp add: running_manager_def finish_def)
  have d: "task_done (heap (finish 0 Completed running_manager) ! 0)"
    by (simp add: running_manager_def finish_def task_done_def)
  from cancel_task_result [of "''t1''" running_manager 0] w t p
  have "fst (cancel_task ''t1'' running_manager)
      \<and> must_cancel (heap (snd (cancel_task ''t1'' running_manager)) ! 0)" by blast
  moreover from cancel_task_result [of "''unknown''" running_manager 0] u
  have "cancel_task ''unknown'' running_manager = (False, running_manager)" by blast
  moreover from cancel_task_result [of "''t1''" "finish 0 Completed running_manager" 0] t' d
  have "cancel_task ''t1'' (finish 0 Completed running_manager)
       = (False, finish 0 Completed running_manager)" by blast
  ultimately show ?thesis by blast
qed

text \<open>
  Claim C8. When a task is already stored under the id, \<open>start_task\<close> first applies
  \<open>cancel_task\<close> to it and only then creates and stores the new task: the old task, if
  it was still pending, has cancellation requested, and it stays in the store, pending,
  until the event loop finishes it; the id then names the new task, which is pending,
  runs the given coroutine and carries the completion callback for that id.
\<close>

theorem start_task_cancels_first:
  assumes "wf m" and "tasks m task_id = Some h"
  shows "start_task task_id c m = track task_id c (snd (cancel_task task_id m))
    \<and> (\<not> task_done (heap m ! h) \<longrightarrow>
         fst (cancel_task task_id m) \<and> must_cancel (heap (start_task task_id c m) ! h))
    \<and> h < length (heap (start_task task_id c m))
    \<and> state (heap (start_task task_id c m) ! h) = state (heap m ! h)
    \<and> h \<noteq> length (heap m)
    \<and> tasks (start_task task_id c m) task_id = Some (length (heap m))
    \<and> heap (start_task task_id c m) ! length (heap m) =
         \<lparr>state = None, must_cancel = False, coro = c, callbacks = [task_id]\<rparr>"
proof -
  have h: "h < length (heap m)" using assms by (simp add: wf_def)
  have d: "task_id \<in> dom (tasks m)" using assms(2) by auto
  have old: "heap (start_task task_id c m) ! h = heap (snd (cancel_task task_id m)) ! h"
    using start_task_old[OF h, of task_id c] d by simp
  have 1: "start_task task_id c m = track task_id c (snd (cancel_task task_id m))"
    using d by (simp add: start_task_def)
  have 2: "\<not> task_done (heap m ! h) \<longrightarrow>
         fst (cancel_task task_id m) \<and> must_cancel (heap (start_task task_id c m) ! h)"
    unfolding old using assms(2) h by (simp add: cancel_task_def)
  have 3: "h < length (heap (start_task task_id c m))"
    using h by (simp add: start_task_heap_length)
  have 4: "state (heap (start_task task_id c m) ! h) = state (heap m ! h)"
    unfolding old by (rule cancel_task_state)
  have 5: "h \<noteq> length (heap m)" using h by simp
  have 6: "tasks (start_task task_id c m) task_id = Some (length (heap m))"
    by (simp add: start_task_tasks)
  have 7: "heap (start_task task_id c m) ! length (heap m) =
         \<lparr>state = None, must_cancel = False, coro = c, callbacks = [task_id]\<rparr>"
    by (rule start_task_new)
  from 1 2 3 4 5 6 7 show ?thesis by blast
qed

theorem start_task_cancels_first_witness:
  "start_task ''t1'' ''other work'' running_manager =
     track ''t1'' ''other work'' (snd (cancel_task ''t1'' running_manager))
   \<and> fst (cancel_task ''t1'' running_manager)
   \<and> must_cancel (heap (start_task ''t1'' ''other work'' running_manager) ! 0)
   \<and> state (heap (start_task ''t1'' ''other work'' running_manager) ! 0) = None
   \<and> tasks (start_task ''t1'' ''other work'' running_manager) ''t1'' = Some 1
   \<and> heap (start_task ''t1'' ''other work'' running_manager) ! 1 =
        \<lparr>state = None, must_cancel = False, coro = ''other work'', callbacks = [''t1'']\<rparr>"
proof -
  have w: "wf running_manager" by (simp add: wf_def running_manager_def)
  have t: "tasks running_manager ''t1'' = Some 0" by (simp add: running_manager_def)
  have p: "\<not> task_done (heap running_manager ! 0)"
    by (simp add: running_manager_def task_done_def)
  have l: "length (heap running_manager) = 1" by (simp add: running_manager_def)
  have s: "state (heap running_manager ! 0) = None" by (simp add: running_manager_def)
  from start_task_cancels_first [OF w t, of "''other work''", unfolded l s] p
  show ?thesis by blast
qed

text \<open>
  Claim C10. Start a task under an id, and start a second one under the same id before
  the first is done: the id names the second task and the first has cancellation
  requested. When the first task then reaches a terminal state and its done callback
  runs, \<open>_task_completed\<close> deletes the entry of the id, which is the second task's; the
  second task is still pending but no longer tracked, and \<open>cancel_task\<close> on the id
  returns false and changes nothing.
\<close>

theorem replaced_task_untracked:
  "(let m1 = start_task task_id c1 m;
        h1 = length (heap m);
        m2 = start_task task_id c2 m1;
        h2 = Suc (length (heap m));
        m3 = finish h1 out m2;
        m4 = run_callbacks h1 m3
    in \<not> task_done (heap m1 ! h1)
       \<and> tasks m2 task_id = Some h2
       \<and> must_cancel (heap m2 ! h1)
       \<and> state (heap m3 ! h1) = Some out
       \<and> tasks m4 task_id = None
       \<and> state (heap m4 ! h2) = None
       \<and> coro (heap m4 ! h2) = c2
       \<and> cancel_task task_id m4 = (False, m4))"
proof -
  define m1 where "m1 = start_task task_id c1 m"
  define h1 where "h1 = length (heap m)"
  define m2 where "m2 = start_task task_id c2 m1"
  define m3 where "m3 = finish h1 out m2"
  define m4 where "m4 = run_callbacks h1 m3"
  let ?new1 = "\<lparr>state = None, must_cancel = False, coro = c1, callbacks = [task_id]\<rparr>"
  let ?new2 = "\<lparr>state = None, must_cancel = False, coro = c2, callbacks = [task_id]\<rparr>"
  have len1: "length (heap m1) = Suc h1"
    by (simp add: m1_def h1_def start_task_heap_length)
  have new1: "heap m1 ! h1 = ?new1" by (simp add: m1_def h1_def start_task_new)
  have t1: "tasks m1 task_id = Some h1" by (simp add: m1_def h1_def start_task_tasks)
  have a: "\<not> task_done (heap m1 ! h1)" by (simp add: new1 task_done_def)
  have c1: "cancel_task task_id m1 =
      (True, m1\<lparr>heap := (heap m1)[h1 := ?new1\<lparr>must_cancel := True\<rparr>]\<rparr>)"
    using t1 a new1 by (simp add: cancel_task_def)
  have heap2: "heap m2 = (heap m1)[h1 := ?new1\<lparr>must_cancel := True\<rparr>] @ [?new2]"
    using t1 c1 by (simp add: m2_def start_task_heap domI)
  have t2: "tasks m2 task_id = Some (Suc h1)"
    by (simp add: m2_def start_task_tasks len1)
  have old2: "heap m2 ! h1 = ?new1\<lparr>must_cancel := True\<rparr>"
    using len1 by (simp add: heap2 nth_append)
  have new2: "heap m2 ! Suc h1 = ?new2"
    using len1 by (simp add: heap2 nth_append)
  have len2: "length (heap m2) = Suc (Suc h1)" using len1 by (simp add: heap2)
  have m3: "m3 = m2\<lparr>heap := (heap m2)[h1 := (heap m2 ! h1)\<lparr>state := Some out\<rparr>]\<rparr>"
    using len2 old2 by (simp add: m3_def finish_def task_done_def)
  have old3: "heap m3 ! h1 = ?new1\<lparr>must_cancel := True, state := Some out\<rparr>"
    using len2 old2 by (simp add: m3)
  have new3: "heap m3 ! Suc h1 = ?new2" using len2 new2 by (simp add: m3)
  have t3: "tasks m3 = tasks m2" by (simp add: m3)
  have len3: "length (heap m3) = Suc (Suc h1)" using len2 by (simp add: m3)
  have m4: "m4 = m3\<lparr>tasks := (tasks m3)(task_id := None)\<rparr>"
    using len3 old3 t3 t2
    by (simp add: m4_def run_callbacks_def task_done_def task_completed_def domI)
  have t4: "tasks m4 task_id = None" by (simp add: m4)
  have new4: "heap m4 ! Suc h1 = ?new2" using new3 by (simp add: m4)
  have c4: "cancel_task task_id m4 = (False, m4)" using t4 by (simp add: cancel_task_def)
  have "\<not> task_done (heap m1 ! h1) \<and> tasks m2 task_id = Some (Suc h1)
       \<and> must_cancel (heap m2 ! h1) \<and> state (heap m3 ! h1) = Some out
       \<and> tasks m4 task_id = None \<and> state (heap m4 ! Suc h1) = None
       \<and> coro (heap m4 ! Suc h1) = c2 \<and> cancel_task task_id m4 = (False, m4)"
    using a t2 old2 old3 t4 new4 c4 by simp
  then show ?thesis
    unfolding Let_def m1_def[symmetric] h1_def[symmetric] m2_def[symmetric]
      m3_def[symmetric] m4_def[symmetric] .
qed

theorem replaced_task_untracked_witness:
  "(let m1 = start_task ''t1'' ''work'' (init_manager :: string manager);
        m2 = start_task ''t1'' ''other work'' m1;
        m3 = finish 0 Cancelled m2;
        m4 = run_callbacks 0 m3
    in tasks m2 ''t1'' = Some 1
       \<and> must_cancel (heap m2 ! 0)
       \<and> state (heap m3 ! 0) = Some Cancelled
       \<and> tasks m4 ''t1'' = None
       \<and> state (heap m4 ! 1) = None
       \<and> coro (heap m4 ! 1) = ''other work''
       \<and> cancel_task ''t1'' m4 = (False, m4))"
  using replaced_task_untracked [of "''t1''" "''work''" "init_manager :: string manager"
      "''other work''" Cancelled]
  by (simp add: Let_def init_manager_def)

end
